theory Spec2Isabelle
  imports Main "HOL-Library.AList"
begin

section \<open>Python values and failures\<close>

text \<open>
  The exceptions the two modules can raise. \<open>SystemExit\<close> is what \<open>exit()\<close> raises in
  \<open>old.py\<close>; \<open>UnsatisfiableException\<close> is the class declared in \<open>nback.py\<close>.
\<close>

datatype error =
  ValueError | IndexError | TypeError | KeyError | NameError | AttributeError
  | SystemExit | UnsatisfiableException

text \<open>Python list indexing: a negative index counts from the end, out of range raises.\<close>

definition py_index :: "'a list \<Rightarrow> int \<Rightarrow> error + 'a" where
  "py_index xs i =
     (let len = int (length xs); j = (if i < 0 then len + i else i)
      in if 0 \<le> j \<and> j < len then Inr (xs ! nat j) else Inl IndexError)"

text \<open>\<open>min\<close> and \<open>max\<close> of a list raise \<open>ValueError\<close> on the empty list.\<close>

fun py_min :: "int list \<Rightarrow> error + int" where
  "py_min [] = Inl ValueError"
| "py_min (x # xs) = Inr (fold min xs x)"

fun py_max :: "int list \<Rightarrow> error + int" where
  "py_max [] = Inl ValueError"
| "py_max (x # xs) = Inr (fold max xs x)"

text \<open>
  A dictionary with integer keys and values is an association list with distinct keys,
  in the dictionary's iteration order. \<open>d[k]\<close> raises \<open>KeyError\<close> for a missing key,
  \<open>d[k] = v\<close> overwrites or adds, and \<open>dict(pairs)\<close> lets a later pair win.
\<close>

type_synonym dict = "(int \<times> int) list"

definition dict_get :: "dict \<Rightarrow> int \<Rightarrow> error + int" where
  "dict_get d k = (case map_of d k of None \<Rightarrow> Inl KeyError | Some v \<Rightarrow> Inr v)"

definition dict_set :: "dict \<Rightarrow> int \<Rightarrow> int \<Rightarrow> dict" where
  "dict_set d k v = AList.update k v d"

definition dict_of :: "(int \<times> int) list \<Rightarrow> dict" where
  "dict_of ps = fold (\<lambda>p d. dict_set d (fst p) (snd p)) ps []"

text \<open>
  Sequencing of computations that may raise: the first exception ends the computation.
\<close>

definition bind_result :: "error + 'a \<Rightarrow> ('a \<Rightarrow> error + 'b) \<Rightarrow> error + 'b" where
  "bind_result m f = (case m of Inl e \<Rightarrow> Inl e | Inr x \<Rightarrow> f x)"

section \<open>old.py: the data model\<close>

definition FILLER :: int where
  "FILLER = 0"

text \<open>An entry of \<open>self.items\<close>: the dictionary with keys \<open>types_available\<close>, \<open>type\<close>, \<open>stim\<close>.\<close>

record item =
  types_available :: "int list"
  type :: int
  stim :: int

text \<open>
  The attributes of an \<open>Nback\<close> object of \<open>old.py\<close> (\<open>self.n\<close> is \<open>nlevel\<close> here).
  \<open>self.currentItem\<close> is reset at the start of every \<open>add_item\<close>, so it is threaded
  through \<open>add_item\<close> as a local value.
\<close>

record nback =
  nlevel :: int
  max_repeat :: int
  items :: "item list"
  targets :: int
  fillers :: int
  lures :: dict
  types_ints :: dict
  seqlength :: int
  wordlist :: "int list"
  backtrack_count :: int

section \<open>old.py: \<open>Nback.__init__\<close>\<close>

text \<open>
  The checks in the order of the source. \<open>lures[i]\<close> for \<open>i in lures\<close> is the value paired
  with the key \<open>i\<close>. \<open>max\<close> of the empty list raises \<open>ValueError\<close>, so an empty \<open>lures\<close>
  is rejected by the last check.
\<close>

definition level_1_lures :: "dict \<Rightarrow> bool" where
  \<comment> \<open>\<open>(1 in lures) and (lures[1] > 0)\<close>\<close>
  "level_1_lures lu = (case map_of lu 1 of None \<Rightarrow> False | Some c \<Rightarrow> c > 0)"

definition old_init :: "int \<Rightarrow> int \<Rightarrow> int \<Rightarrow> dict \<Rightarrow> int \<Rightarrow> error + nback" where
  "old_init nl tg fl lu mr =
     (if nl < 1 then Inl ValueError
      else if tg < 0 \<or> fl < 0 \<or> list_ex (\<lambda>p. snd p < 0) lu then Inl ValueError
      else bind_result (py_min (map fst lu @ [nl])) (\<lambda>lowest.
        if fl < lowest then Inl ValueError
        else if list_ex (\<lambda>p. fst p < 0) lu then Inl ValueError
        else if mr < 0 then Inl ValueError
        else if mr = 1 \<and> nl = 1 then Inl ValueError
        else if mr = 1 \<and> level_1_lures lu then Inl ValueError
        else bind_result (py_max (map (\<lambda>p. fst p + snd p) lu)) (\<lambda>highest.
          if highest > fl + tg + sum_list (map snd lu) then Inl ValueError
          else Inr \<lparr> nlevel = nl, max_repeat = mr, items = [], targets = tg, fillers = fl,
                     lures = lu, types_ints = dict_of (lu @ [(FILLER, fl), (nl, tg)]),
                     seqlength = fl + tg + sum_list (map snd lu),
                     wordlist = rev (map int [0..<nat fl]),
                     backtrack_count = 0 \<rparr>)))"

section \<open>nback.py: \<open>Nback.__init__\<close>\<close>

text \<open>
  The attributes \<open>_level\<close>, \<open>_targets\<close>, \<open>_fillers\<close>, \<open>_lures\<close>, \<open>_max_repeat\<close>,
  \<open>_pairs\<close>, \<open>_length\<close>, \<open>_unique\<close> of an \<open>Nback\<close> object of \<open>nback.py\<close>.
\<close>

record nback_family =
  nb_level :: int
  nb_targets :: int
  nb_fillers :: int
  nb_lures :: dict
  nb_max_repeat :: int
  nb_pairs :: "int list"
  nb_length :: int
  nb_unique :: int

text \<open>\<open>lures.get(1, 1)\<close>: the count under the key 1, and 1 when the key is missing.\<close>

definition lures_get_1_1 :: "dict \<Rightarrow> int" where
  "lures_get_1_1 lu = (case map_of lu 1 of None \<Rightarrow> 1 | Some c \<Rightarrow> c)"

definition pairs_of :: "int \<Rightarrow> int \<Rightarrow> dict \<Rightarrow> int list" where
  "pairs_of lv tg lu =
     replicate (nat tg) lv @ concat (map (\<lambda>p. replicate (nat (snd p)) (fst p)) lu)"

text \<open>
  \<open>lures\<close> defaults to \<open>None\<close>, and \<open>None.values()\<close> raises \<open>AttributeError\<close>;
  \<open>or\<close> evaluates its operands left to right and stops at the first true one.
\<close>

definition nback_init ::
  "int \<Rightarrow> int \<Rightarrow> int \<Rightarrow> dict option \<Rightarrow> int \<Rightarrow> error + nback_family" where
  "nback_init lv tg fl lures_opt mr =
     (if lv < 1 then Inl ValueError
      else if tg < 0 \<or> fl < 0 then Inl ValueError
      else bind_result (case lures_opt of None \<Rightarrow> Inl AttributeError | Some lu \<Rightarrow> Inr lu) (\<lambda>lu.
        bind_result (py_min (map snd lu)) (\<lambda>lowest_count.
        if lowest_count < 0 then Inl ValueError
        else bind_result (py_min (map fst lu @ [lv])) (\<lambda>lowest.
        if fl < lowest then Inl ValueError
        else bind_result (py_min (map fst lu)) (\<lambda>lowest_key.
        if lowest_key \<le> 0 then Inl ValueError
        else if mr < 0 then Inl ValueError
        else if mr = 1 \<and> lv = 1 then Inl ValueError
        else if mr = 1 \<and> lures_get_1_1 lu > 0 then Inl ValueError
        else bind_result (py_max (map (\<lambda>p. fst p + snd p) lu)) (\<lambda>highest.
        if highest > int (length (pairs_of lv tg lu)) + fl then Inl ValueError
        else Inr \<lparr> nb_level = lv, nb_targets = tg, nb_fillers = fl, nb_lures = lu,
                   nb_max_repeat = mr, nb_pairs = pairs_of lv tg lu,
                   nb_length = int (length (pairs_of lv tg lu)) + fl,
                   nb_unique = fl \<rparr>))))))"

section \<open>nback.py: \<open>Nback.place\<close>\<close>

text \<open>
  \<open>place\<close> as it is written. \<open>available or set(range())\<close> evaluates \<open>range()\<close> when
  \<open>available\<close> is \<open>None\<close> or empty, and \<open>range\<close> without arguments raises \<open>TypeError\<close>.
  With nothing left to place the result is the empty list. Otherwise the loop runs over
  a permutation of the non-empty \<open>available\<close>, and its first iteration reads the name
  \<open>voilates_constraints\<close>, which is bound nowhere: \<open>NameError\<close>. The final
  \<open>raise UnsatisfiableException\<close> is never reached.
\<close>

definition place :: "int \<Rightarrow> int list \<Rightarrow> int list option \<Rightarrow> int \<Rightarrow> error + (int \<times> int) list" where
  "place fl prs available it =
     (if available = None \<or> available = Some [] then Inl TypeError
      else if fl = 0 \<and> length prs = 0 then Inr []
      else Inl NameError)"

section \<open>old.py: building the sequence\<close>

definition items_different :: "nback \<Rightarrow> int \<Rightarrow> int \<Rightarrow> error + bool" where
  "items_different nb index1 index2 =
     bind_result (py_index (items nb) index1) (\<lambda>a.
     bind_result (py_index (items nb) index2) (\<lambda>b.
     Inr (\<not> stim a = stim b)))"

text \<open>
  The last branch calls \<open>self.items_different(range(-self.max_repeat, 0))\<close>: one
  argument for a method that takes two, which raises \<open>TypeError\<close>.
\<close>

definition repeat_limit_reached :: "nback \<Rightarrow> error + bool" where
  "repeat_limit_reached nb =
     (if max_repeat nb = 0 then Inr False
      else if int (length (items nb)) < max_repeat nb then Inr False
      else if max_repeat nb = 1 then Inr True
      else Inl TypeError)"

text \<open>The body of the loop over \<open>self.lures.keys()\<close> in \<open>get_types\<close>.\<close>

definition lure_type :: "nback \<Rightarrow> int \<Rightarrow> int list \<Rightarrow> error + int list" where
  "lure_type nb lure_level available_types =
     bind_result (dict_get (types_ints nb) lure_level) (\<lambda>c.
     if c > 0 \<and> int (length (items nb)) \<ge> lure_level then
       bind_result (if int (length (items nb)) \<ge> nlevel nb
                    then items_different nb (- nlevel nb) (- lure_level) else Inr True) (\<lambda>d1.
       bind_result (repeat_limit_reached nb) (\<lambda>lim.
       bind_result (if lim then items_different nb (- 1) (- lure_level) else Inr True) (\<lambda>d2.
       Inr (if d1 \<and> d2 then available_types @ [lure_level] else available_types))))
     else Inr available_types)"

fun lure_types :: "nback \<Rightarrow> int list \<Rightarrow> int list \<Rightarrow> error + int list" where
  "lure_types nb [] available_types = Inr available_types"
| "lure_types nb (lure_level # ks) available_types =
     bind_result (lure_type nb lure_level available_types) (lure_types nb ks)"

definition target_type :: "nback \<Rightarrow> int list \<Rightarrow> error + int list" where
  "target_type nb available_types =
     bind_result (dict_get (types_ints nb) (nlevel nb)) (\<lambda>c.
     if c > 0 \<and> int (length (items nb)) \<ge> nlevel nb then
       bind_result (repeat_limit_reached nb) (\<lambda>lim.
       bind_result (if lim then items_different nb (- 1) (- nlevel nb) else Inr True) (\<lambda>target_available.
       Inr (if target_available then available_types @ [nlevel nb] else available_types)))
     else Inr available_types)"

definition get_types :: "nback \<Rightarrow> error + int list" where
  "get_types nb =
     bind_result (dict_get (types_ints nb) FILLER) (\<lambda>c.
     bind_result (target_type nb (if c > 0 then [FILLER] else [])) (\<lambda>available_types.
     lure_types nb (map fst (lures nb)) available_types))"

text \<open>
  \<open>get_stim\<close> runs before the current item is appended, so \<open>self.items[-item_type]\<close>
  is the item \<open>item_type\<close> positions before the new one. It returns the object with the
  word list popped, and the stimulus.
\<close>

definition get_stim :: "nback \<Rightarrow> int \<Rightarrow> error + (nback \<times> int)" where
  "get_stim nb item_type =
     (if item_type = FILLER then
        (if wordlist nb = [] then Inl IndexError
         else Inr (nb\<lparr>wordlist := butlast (wordlist nb)\<rparr>, last (wordlist nb)))
      else bind_result (py_index (items nb) (- item_type)) (\<lambda>it. Inr (nb, stim it)))"

text \<open>
  \<open>[[item] * self.types_ints[item] for item in available]\<close>, flattened; a list
  times a negative number is empty.
\<close>

fun expand :: "dict \<Rightarrow> int list \<Rightarrow> error + int list" where
  "expand d [] = Inr []"
| "expand d (t # ts) =
     bind_result (dict_get d t) (\<lambda>c.
     bind_result (expand d ts) (\<lambda>rest. Inr (replicate (nat c) t @ rest)))"

text \<open>
  \<open>random.choice\<close> raises \<open>IndexError\<close> on the empty list and otherwise returns one of
  its elements; \<open>r\<close> is the random number drawn.
\<close>

definition choose_random_itemtype :: "nat \<Rightarrow> nback \<Rightarrow> int list \<Rightarrow> error + int" where
  "choose_random_itemtype r nb available =
     bind_result (expand (types_ints nb) available) (\<lambda>expanded.
     if expanded = [] then Inl IndexError else Inr (expanded ! (r mod length expanded)))"

text \<open>
  \<open>backtrack\<close> returns the object and the popped item, which becomes the current item,
  with its type removed from its \<open>types_available\<close>. \<open>list.remove\<close> raises
  \<open>ValueError\<close> when the element is missing.
\<close>

definition backtrack :: "nback \<Rightarrow> error + (nback \<times> item)" where
  "backtrack nb =
     (if items nb = [] then Inl IndexError
      else let cur = last (items nb) in
        bind_result (dict_get (types_ints nb) (type cur)) (\<lambda>c.
        if type cur \<in> set (types_available cur) then
          Inr (nb\<lparr> backtrack_count := backtrack_count nb + 1,
                   items := butlast (items nb),
                   types_ints := dict_set (types_ints nb) (type cur) (c + 1),
                   wordlist := (if type cur = FILLER then wordlist nb @ [stim cur]
                                else wordlist nb) \<rparr>,
               cur\<lparr>types_available := remove1 (type cur) (types_available cur)\<rparr>)
        else Inl ValueError))"

text \<open>
  The \<open>while\<close> loop of \<open>add_item\<close>: while the current item has no type left, backtrack;
  an \<open>IndexError\<close> from \<open>backtrack\<close> (the pop from the empty list) prints a message and
  calls \<open>exit()\<close>, any other exception propagates.
\<close>

function backtrack_loop :: "nback \<Rightarrow> int list \<Rightarrow> error + (nback \<times> int list)" where
  "backtrack_loop nb available =
     (if available = [] then
        (case backtrack nb of
           Inl e \<Rightarrow> Inl (if e = IndexError then SystemExit else e)
         | Inr (nb', cur) \<Rightarrow> backtrack_loop nb' (types_available cur))
      else Inr (nb, available))"
  by pat_completeness auto
termination
  by (relation "measure (\<lambda>(nb, available). length (items nb))")
     (auto simp: backtrack_def bind_result_def Let_def split: if_splits sum.splits)

definition add_item :: "nat \<Rightarrow> nback \<Rightarrow> error + nback" where
  "add_item r nb =
     bind_result (get_types nb) (\<lambda>available0.
     bind_result (backtrack_loop nb available0) (\<lambda>(nb1, available).
     bind_result (choose_random_itemtype r nb1 available) (\<lambda>ty.
     bind_result (dict_get (types_ints nb1) ty) (\<lambda>c.
     bind_result (get_stim (nb1\<lparr>types_ints := dict_set (types_ints nb1) ty (c - 1)\<rparr>) ty) (\<lambda>(nb2, s).
     Inr (nb2\<lparr>items := items nb2 @ [\<lparr>types_available = available, type = ty, stim = s\<rparr>]\<rparr>))))))"

text \<open>
  \<open>set_items\<close>: the loop \<open>while len(self.items) < self.seqlength: self.add_item()\<close>.
  The random source is a function \<open>rnd\<close>; the iteration that makes the \<open>k\<close>-th call
  of \<open>random.choice\<close> draws \<open>rnd k\<close>. The loop runs on fuel: \<open>None\<close> is "still running
  when the fuel ran out", \<open>Some (Inl e)\<close> an exception, \<open>Some (Inr nb)\<close> the normal return.
\<close>

fun set_items :: "(nat \<Rightarrow> nat) \<Rightarrow> nat \<Rightarrow> nat \<Rightarrow> nback \<Rightarrow> (error + nback) option" where
  "set_items rnd 0 k nb =
     (if int (length (items nb)) < seqlength nb then None else Some (Inr nb))"
| "set_items rnd (Suc fuel) k nb =
     (if int (length (items nb)) < seqlength nb then
        (case add_item (rnd k) nb of
           Inl e \<Rightarrow> Some (Inl e)
         | Inr nb' \<Rightarrow> set_items rnd fuel (Suc k) nb')
      else Some (Inr nb))"

section \<open>old.py: invariants of the search\<close>

text \<open>
  \<open>admissible nb its i t\<close>: the type \<open>t\<close> may stand at position \<open>i\<close> after the items
  \<open>its\<close>. A filler always may; a target or lure reaches \<open>t\<close> positions back, a lure
  copies a stimulus other than the n-back one, under \<open>max_repeat == 1\<close> the copied
  stimulus is not the previous one, and under any other non-zero \<open>max_repeat\<close> the
  position is below \<open>max_repeat\<close> (from there on \<open>repeat_limit_reached\<close> raises).
\<close>

definition admissible :: "nback \<Rightarrow> item list \<Rightarrow> nat \<Rightarrow> int \<Rightarrow> bool" where
  "admissible nb its i t \<longleftrightarrow>
     t = FILLER \<or>
     (1 \<le> t \<and> t \<le> int i
      \<and> (t \<noteq> nlevel nb \<longrightarrow> nlevel nb \<le> int i \<longrightarrow>
           stim (its ! (i - nat t)) \<noteq> stim (its ! (i - nat (nlevel nb))))
      \<and> (max_repeat nb = 1 \<longrightarrow> stim (its ! (i - 1)) \<noteq> stim (its ! (i - nat t)))
      \<and> (max_repeat nb \<noteq> 0 \<and> max_repeat nb \<noteq> 1 \<longrightarrow> int i < max_repeat nb))"

definition params_ok :: "nback \<Rightarrow> bool" where
  "params_ok nb \<longleftrightarrow> 1 \<le> nlevel nb \<and> (\<forall>k \<in> set (map fst (lures nb)). 0 \<le> k)"

definition items_ok :: "nback \<Rightarrow> bool" where
  "items_ok nb \<longleftrightarrow>
     (\<forall>i < length (items nb).
        type (items nb ! i) \<in> set (types_available (items nb ! i))
        \<and> (\<forall>t \<in> set (types_available (items nb ! i)). admissible nb (items nb) i t)
        \<and> (type (items nb ! i) \<noteq> FILLER \<longrightarrow>
             stim (items nb ! i) = stim (items nb ! (i - nat (type (items nb ! i))))))"

definition words_ok :: "nback \<Rightarrow> bool" where
  "words_ok nb \<longleftrightarrow>
     distinct (wordlist nb)
     \<and> (\<forall>i < length (items nb). type (items nb ! i) = FILLER \<longrightarrow>
           stim (items nb ! i) \<notin> set (wordlist nb))
     \<and> (\<forall>i < length (items nb). \<forall>j < length (items nb).
           i \<noteq> j \<longrightarrow> type (items nb ! i) = FILLER \<longrightarrow> type (items nb ! j) = FILLER \<longrightarrow>
           stim (items nb ! i) \<noteq> stim (items nb ! j))"

definition counts_ok :: "nback \<Rightarrow> bool" where
  "counts_ok nb \<longleftrightarrow>
     (\<forall>p \<in> set (types_ints nb). 0 \<le> snd p)
     \<and> int (length (items nb)) + sum_list (map snd (types_ints nb)) \<le> seqlength nb"

definition search_inv :: "nback \<Rightarrow> bool" where
  "search_inv nb \<longleftrightarrow> params_ok nb \<and> items_ok nb \<and> words_ok nb \<and> counts_ok nb"

text \<open>The types still open for the current item are admissible at the next position.\<close>

definition pending_ok :: "nback \<Rightarrow> int list \<Rightarrow> bool" where
  "pending_ok nb available \<longleftrightarrow>
     (\<forall>t \<in> set available. admissible nb (items nb) (length (items nb)) t)"

text \<open>The attributes that the search never changes.\<close>

definition same_spec :: "nback \<Rightarrow> nback \<Rightarrow> bool" where
  "same_spec nb nb' \<longleftrightarrow>
     nlevel nb' = nlevel nb \<and> max_repeat nb' = max_repeat nb \<and> lures nb' = lures nb
     \<and> seqlength nb' = seqlength nb \<and> targets nb' = targets nb \<and> fillers nb' = fillers nb"










section \<open>Running a request\<close>

text \<open>
  \<open>nback = Nback(n, targets, fillers, lures, max_repeat); nback.set_items()\<close>:
  an exception of the constructor ends the run, otherwise the loop starts on the new
  object with the first random draw.
\<close>

definition generate ::
  "(nat \<Rightarrow> nat) \<Rightarrow> nat \<Rightarrow> int \<Rightarrow> int \<Rightarrow> int \<Rightarrow> dict \<Rightarrow> int \<Rightarrow> (error + nback) option" where
  "generate rnd fuel nl tg fl lu mr =
     (case old_init nl tg fl lu mr of
        Inl e \<Rightarrow> Some (Inl e)
      | Inr nb \<Rightarrow> set_items rnd fuel 0 nb)"

text \<open>Three random sources for the examples.\<close>

definition rnd_zero :: "nat \<Rightarrow> nat" where
  "rnd_zero k = 0"

definition rnd_mixed :: "nat \<Rightarrow> nat" where
  "rnd_mixed k = k * 7 + 3"

definition rnd_count :: "nat \<Rightarrow> nat" where
  "rnd_count k = k"

section \<open>Validation: what the two constructors accept\<close>

lemma bind_result_simps [simp]:
  "bind_result (Inl e) f = Inl e"
  "bind_result (Inr x) f = f x"
  by (simp_all add: bind_result_def)

lemma bind_result_eq_Inr:
  "bind_result m f = Inr y \<longleftrightarrow> (\<exists>x. m = Inr x \<and> f x = Inr y)"
  by (cases m) simp_all

lemma py_min_Inl: "py_min xs = Inl e \<Longrightarrow> e = ValueError"
  by (cases xs) simp_all


lemma fold_min_le: "fold min xs (a::int) \<le> a"
proof (induction xs arbitrary: a)
  case Nil
  show ?case by simp
next
  case (Cons y ys)
  have "fold min ys (min y a) \<le> min y a" by (rule Cons.IH)
  then show ?case by simp
qed

lemma fold_min_le_mem: "x \<in> set xs \<Longrightarrow> fold min xs (a::int) \<le> x"
proof (induction xs arbitrary: a)
  case Nil
  then show ?case by simp
next
  case (Cons y ys)
  show ?case
  proof (cases "x = y")
    case True
    have "fold min ys (min y a) \<le> min y a" by (rule fold_min_le)
    with True show ?thesis by simp
  next
    case False
    with Cons.prems have "x \<in> set ys" by simp
    then show ?thesis using Cons.IH by simp
  qed
qed

lemma py_min_le_mem: "py_min xs = Inr m \<Longrightarrow> x \<in> set xs \<Longrightarrow> m \<le> x"
  by (cases xs) (auto simp: fold_min_le fold_min_le_mem)

text \<open>
  \<open>nback.py\<close> rejects every request with a lure distance that is zero or negative:
  whichever check fires first, it raises \<open>ValueError\<close>.
\<close>

lemma nback_init_rejects_nonpositive_distance:
  assumes "(k, c) \<in> set lu" and "k \<le> 0"
  shows "nback_init lv tg fl (Some lu) mr = Inl ValueError"
proof -
  have k_in: "k \<in> set (map fst lu)" using assms(1) by force
  have low: "m \<le> 0" if "py_min (map fst lu) = Inr m" for m
    using py_min_le_mem [OF that k_in] assms(2) by simp
  show ?thesis
    unfolding nback_init_def
    by (cases "py_min (map snd lu)"; cases "py_min (map fst lu @ [lv])";
        cases "py_min (map fst lu)")
       (auto dest!: py_min_Inl low)
qed

text \<open>
  In \<open>old.py\<close> the \<open>max_repeat == 1\<close> rule is exact: it raises when the n-level is 1 or a
  positive number of 1-back lures is requested, and otherwise the request is accepted or
  rejected just as it is with \<open>max_repeat == 0\<close>.
\<close>

lemma old_init_max_repeat_1_rule:
  assumes "nl = 1 \<or> level_1_lures lu"
  shows "old_init nl tg fl lu 1 = Inl ValueError"
proof -
  have "bind_result (py_min xs) (\<lambda>m. if P m then Inl ValueError else Inl ValueError)
             = Inl ValueError" for xs P
    by (cases "py_min xs") (auto dest: py_min_Inl)
  with assms show ?thesis
    unfolding old_init_def by auto
qed

lemma old_init_max_repeat_1_passes:
  assumes "nl \<noteq> 1" and "\<not> level_1_lures lu"
  shows "(\<exists>e. old_init nl tg fl lu 1 = Inl e) \<longleftrightarrow> (\<exists>e. old_init nl tg fl lu 0 = Inl e)"
  using assms unfolding old_init_def
  by (cases "py_min (map fst lu @ [nl])"; cases "py_max (map (\<lambda>p. fst p + snd p) lu)") simp_all

text \<open>
  Claim C4. With \<open>max_repeat == 1\<close> validation should raise exactly when the n-level is 1
  or a positive count of 1-back lures is requested, and not otherwise.
  \<open>nback.py\<close> tests \<open>lures.get(1, 1) > 0\<close>, whose default is 1: the request
  \<open>Nback(2, 2, 2, {3: 0}, 1)\<close> has n-level 2 and no 1-back lures, is accepted with
  \<open>max_repeat == 0\<close> and by \<open>old.py\<close>, and is rejected by \<open>nback.py\<close> with
  \<open>max_repeat == 1\<close>.
\<close>

theorem nback_init_max_repeat_1_rejects_without_1_lures:
  "nback_init 2 2 2 (Some [(3, 0)]) 1 = Inl ValueError
   \<and> nback_init 2 2 2 (Some [(3, 0)]) 0 =
       Inr \<lparr> nb_level = 2, nb_targets = 2, nb_fillers = 2, nb_lures = [(3, 0)],
             nb_max_repeat = 0, nb_pairs = [2, 2], nb_length = 4, nb_unique = 2 \<rparr>
   \<and> old_init 2 2 2 [(3, 0)] 1 =
       Inr \<lparr> nlevel = 2, max_repeat = 1, items = [], targets = 2, fillers = 2,
             lures = [(3, 0)], types_ints = [(3, 0), (0, 2), (2, 2)], seqlength = 4,
             wordlist = [1, 0], backtrack_count = 0 \<rparr>"
  by code_simp




text \<open>
  Claim C9. Validation should raise for every request with a lure distance \<open>\<le> 0\<close>, zero
  included. \<open>old.py\<close> tests \<open>i < 0\<close> under the message "Lure levels must be positive
  numbers", so the distance 0 passes: \<open>Nback(1, 0, 1, {0: 1})\<close> is accepted (and the
  filler count overwrites the lure count under the key 0 of \<open>types_ints\<close>). \<open>nback.py\<close>
  tests \<open><= 0\<close> and rejects the same request.
\<close>

theorem old_init_accepts_lure_distance_zero:
  "old_init 1 0 1 [(0, 1)] 0 =
     Inr \<lparr> nlevel = 1, max_repeat = 0, items = [], targets = 0, fillers = 1,
           lures = [(0, 1)], types_ints = [(0, 1), (1, 0)], seqlength = 2,
           wordlist = [0], backtrack_count = 0 \<rparr>
   \<and> nback_init 1 0 1 (Some [(0, 1)]) 0 = Inl ValueError"
  by code_simp

section \<open>old.py: the search keeps its invariant\<close>

lemma dict_get_Inr: "dict_get d k = Inr c \<longleftrightarrow> map_of d k = Some c"
  by (simp add: dict_get_def split: option.splits)

lemma sum_dict_set:
  "map_of d k = Some c \<Longrightarrow>
   sum_list (map snd (dict_set d k v)) = sum_list (map snd d) - c + v"
  unfolding dict_set_def by (induction d) (auto split: if_splits)

lemma set_dict_set: "set (dict_set d k v) \<subseteq> insert (k, v) (set d)"
  unfolding dict_set_def by (induction d) auto

lemma py_index_back:
  "1 \<le> t \<Longrightarrow> t \<le> int (length xs) \<Longrightarrow> py_index xs (- t) = Inr (xs ! (length xs - nat t))"
  by (auto simp: py_index_def Let_def nat_diff_distrib' intro!: arg_cong [where f = "nth xs"])

lemma py_index_back_Inr:
  assumes "py_index xs (- t) = Inr x" and "1 \<le> t"
  shows "t \<le> int (length xs) \<and> x = xs ! (length xs - nat t)"
proof -
  from assms have le: "t \<le> int (length xs)"
    by (auto simp: py_index_def Let_def split: if_splits)
  with assms py_index_back [of t xs] show ?thesis by simp
qed

lemma items_different_back:
  assumes "items_different nb (- a) (- b) = Inr d" and "1 \<le> a" and "1 \<le> b"
  shows "a \<le> int (length (items nb)) \<and> b \<le> int (length (items nb))
         \<and> d = (stim (items nb ! (length (items nb) - nat a))
                  \<noteq> stim (items nb ! (length (items nb) - nat b)))"
proof -
  from assms(1) obtain x y where x: "py_index (items nb) (- a) = Inr x"
    and y: "py_index (items nb) (- b) = Inr y" and d: "d = (stim x \<noteq> stim y)"
    by (auto simp: items_different_def bind_result_eq_Inr)
  from py_index_back_Inr [OF x assms(2)] py_index_back_Inr [OF y assms(3)] d
  show ?thesis by simp
qed

lemma repeat_limit_reached_Inr:
  assumes "repeat_limit_reached nb = Inr lim" and "1 \<le> length (items nb)"
  shows "(lim \<longleftrightarrow> max_repeat nb = 1)
       \<and> (max_repeat nb \<noteq> 0 \<and> max_repeat nb \<noteq> 1 \<longrightarrow> int (length (items nb)) < max_repeat nb)"
  using assms by (auto simp: repeat_limit_reached_def split: if_splits)

lemma admissible_FILLER [simp]: "admissible nb its i FILLER"
  by (simp add: admissible_def)

lemma pending_ok_snoc:
  "pending_ok nb av \<Longrightarrow> admissible nb (items nb) (length (items nb)) t \<Longrightarrow> pending_ok nb (av @ [t])"
  by (simp add: pending_ok_def)

lemma lure_type_pending:
  assumes av: "pending_ok nb av" and k: "0 \<le> k" and n1: "1 \<le> nlevel nb"
    and res: "lure_type nb k av = Inr av'"
  shows "pending_ok nb av'"
proof (cases "av' = av")
  case True
  with av show ?thesis by simp
next
  case False
  let ?L = "length (items nb)"
  from res False obtain c d1 lim d2 where
    len: "k \<le> int ?L"
    and d1: "(if int ?L \<ge> nlevel nb then items_different nb (- nlevel nb) (- k) else Inr True) = Inr d1"
    and lim: "repeat_limit_reached nb = Inr lim"
    and d2: "(if lim then items_different nb (- 1) (- k) else Inr True) = Inr d2"
    and d12: "d1" "d2" and av': "av' = av @ [k]"
    by (auto simp: lure_type_def bind_result_eq_Inr split: if_splits)
  have "admissible nb (items nb) ?L k"
  proof (cases "k = 0")
    case True
    then show ?thesis by (simp add: FILLER_def [symmetric])
  next
    case k0: False
    with k have k1: "1 \<le> k" by simp
    with len have L1: "1 \<le> ?L" by simp
    have a: "stim (items nb ! (?L - nat k)) \<noteq> stim (items nb ! (?L - nat (nlevel nb)))"
      if "k \<noteq> nlevel nb" "nlevel nb \<le> int ?L"
      using d1 that d12(1) n1 items_different_back [of nb "nlevel nb" k d1] k1 by auto
    have b: "stim (items nb ! (?L - 1)) \<noteq> stim (items nb ! (?L - nat k))"
      if "max_repeat nb = 1"
      using repeat_limit_reached_Inr [OF lim L1] that d2 d12(2)
        items_different_back [of nb 1 k d2] k1 by auto
    have c: "int ?L < max_repeat nb" if "max_repeat nb \<noteq> 0" "max_repeat nb \<noteq> 1"
      using repeat_limit_reached_Inr [OF lim L1] that by simp
    show ?thesis
      unfolding admissible_def using k1 len a b c by auto
  qed
  with av av' show ?thesis by (simp add: pending_ok_snoc)
qed


lemma lure_types_pending:
  assumes "pending_ok nb av" and "\<forall>k \<in> set ks. 0 \<le> k" and "1 \<le> nlevel nb"
    and "lure_types nb ks av = Inr av'"
  shows "pending_ok nb av'"
  using assms
proof (induction ks arbitrary: av)
  case Nil
  then show ?case by simp
next
  case (Cons k ks)
  from Cons.prems(4) obtain av1 where 1: "lure_type nb k av = Inr av1"
    and 2: "lure_types nb ks av1 = Inr av'"
    by (auto simp: bind_result_eq_Inr)
  from Cons.prems have "pending_ok nb av1"
    using lure_type_pending [OF _ _ _ 1] by simp
  with Cons.IH [OF _ _ _ 2] Cons.prems show ?case by simp
qed

lemma target_type_pending:
  assumes av: "pending_ok nb av" and n1: "1 \<le> nlevel nb"
    and res: "target_type nb av = Inr av'"
  shows "pending_ok nb av'"
proof (cases "av' = av")
  case True
  with av show ?thesis by simp
next
  case False
  let ?L = "length (items nb)"
  from res False obtain lim d where
    len: "nlevel nb \<le> int ?L"
    and lim: "repeat_limit_reached nb = Inr lim"
    and d: "(if lim then items_different nb (- 1) (- nlevel nb) else Inr True) = Inr d"
    and d': "d" and av': "av' = av @ [nlevel nb]"
    by (auto simp: target_type_def bind_result_eq_Inr split: if_splits)
  from n1 len have L1: "1 \<le> ?L" by simp
  have b: "stim (items nb ! (?L - 1)) \<noteq> stim (items nb ! (?L - nat (nlevel nb)))"
    if "max_repeat nb = 1"
    using repeat_limit_reached_Inr [OF lim L1] that d d'
      items_different_back [of nb 1 "nlevel nb" d] n1 by auto
  have c: "int ?L < max_repeat nb" if "max_repeat nb \<noteq> 0" "max_repeat nb \<noteq> 1"
    using repeat_limit_reached_Inr [OF lim L1] that by simp
  have "admissible nb (items nb) ?L (nlevel nb)"
    unfolding admissible_def using n1 len b c by auto
  with av av' show ?thesis by (simp add: pending_ok_snoc)
qed

lemma get_types_pending:
  assumes "params_ok nb" and "get_types nb = Inr av"
  shows "pending_ok nb av"
proof -
  from assms(2) obtain c :: int and av1 where
    1: "target_type nb (if c > 0 then [FILLER] else []) = Inr av1"
    and 2: "lure_types nb (map fst (lures nb)) av1 = Inr av"
    unfolding get_types_def bind_result_eq_Inr by blast
  have "pending_ok nb (if c > 0 then [FILLER] else [])"
    by (simp add: pending_ok_def)
  from target_type_pending [OF this _ 1] assms(1) have "pending_ok nb av1"
    by (simp add: params_ok_def)
  from lure_types_pending [OF this _ _ 2] assms(1) show ?thesis
    by (simp add: params_ok_def)
qed

lemma admissible_cong:
  assumes "nlevel nb' = nlevel nb" and "max_repeat nb' = max_repeat nb"
    and "1 \<le> nlevel nb" and "\<forall>j < i. its' ! j = its ! j"
  shows "admissible nb' its' i t = admissible nb its i t"
proof (cases "1 \<le> t \<and> t \<le> int i")
  case False
  then show ?thesis by (auto simp: admissible_def assms(1,2))
next
  case True
  then have i: "i - nat t < i" "i - 1 < i" by auto
  have n: "i - nat (nlevel nb) < i" if "nlevel nb \<le> int i"
    using that assms(3) True by auto
  show ?thesis
    unfolding admissible_def using assms(1,2,4) i n by auto
qed

lemma same_spec_refl [simp]: "same_spec nb nb"
  by (simp add: same_spec_def)

lemma same_spec_trans: "same_spec a b \<Longrightarrow> same_spec b c \<Longrightarrow> same_spec a c"
  by (simp add: same_spec_def)

lemma backtrack_Inr:
  assumes "backtrack nb = Inr (nb', cur)"
  shows "items nb \<noteq> [] \<and> items nb' = butlast (items nb)
       \<and> (\<exists>c. map_of (types_ints nb) (type (last (items nb))) = Some c
              \<and> types_ints nb' = dict_set (types_ints nb) (type (last (items nb))) (c + 1))
       \<and> wordlist nb' = (if type (last (items nb)) = FILLER
                           then wordlist nb @ [stim (last (items nb))] else wordlist nb)
       \<and> types_available cur = remove1 (type (last (items nb))) (types_available (last (items nb)))
       \<and> same_spec nb nb'"
  using assms
  by (auto simp: backtrack_def Let_def bind_result_eq_Inr dict_get_Inr same_spec_def
           split: if_splits)

lemma backtrack_inv:
  assumes inv: "search_inv nb" and bt: "backtrack nb = Inr (nb', cur)"
  shows "search_inv nb' \<and> pending_ok nb' (types_available cur) \<and> same_spec nb nb'"
proof -
  let ?its = "items nb" and ?L = "length (items nb)"
  let ?x = "last (items nb)"
  from backtrack_Inr [OF bt] obtain c where
    ne: "?its \<noteq> []" and its': "items nb' = butlast ?its"
    and c: "map_of (types_ints nb) (type ?x) = Some c"
    and ti': "types_ints nb' = dict_set (types_ints nb) (type ?x) (c + 1)"
    and wl': "wordlist nb' = (if type ?x = FILLER then wordlist nb @ [stim ?x] else wordlist nb)"
    and ta: "types_available cur = remove1 (type ?x) (types_available ?x)"
    and same: "same_spec nb nb'"
    by blast
  from ne have L: "0 < ?L" by simp
  have len': "length (items nb') = ?L - 1" by (simp add: its')
  have nth': "items nb' ! j = ?its ! j" if "j < ?L - 1" for j
    using that by (simp add: its' nth_butlast)
  have last: "?x = ?its ! (?L - 1)" using ne by (simp add: last_conv_nth)
  from inv have par: "params_ok nb" and io: "items_ok nb" and wo: "words_ok nb"
    and co: "counts_ok nb" by (simp_all add: search_inv_def)
  from par have n1: "1 \<le> nlevel nb" by (simp add: params_ok_def)
  from same have sn: "nlevel nb' = nlevel nb" and sm: "max_repeat nb' = max_repeat nb"
    and sl: "lures nb' = lures nb" and sq: "seqlength nb' = seqlength nb"
    by (simp_all add: same_spec_def)
  have adm: "admissible nb' (items nb') i t = admissible nb ?its i t" if "i \<le> ?L - 1" for i t
    by (rule admissible_cong [OF sn sm n1]) (use that nth' in auto)
  have par': "params_ok nb'" using par by (simp add: params_ok_def sn sl)
  have io': "items_ok nb'"
    unfolding items_ok_def
  proof (intro allI impI)
    fix i assume i: "i < length (items nb')"
    then have iL: "i < ?L" "i < ?L - 1" "i \<le> ?L - 1" by (simp_all add: len')
    have sub: "i - nat (type (?its ! i)) < ?L - 1" using iL by simp
    from io iL(1) have
      1: "type (?its ! i) \<in> set (types_available (?its ! i))"
      and 2: "\<forall>t \<in> set (types_available (?its ! i)). admissible nb ?its i t"
      and 3: "type (?its ! i) \<noteq> FILLER \<longrightarrow>
               stim (?its ! i) = stim (?its ! (i - nat (type (?its ! i))))"
      by (simp_all add: items_ok_def)
    show "type (items nb' ! i) \<in> set (types_available (items nb' ! i))
        \<and> (\<forall>t \<in> set (types_available (items nb' ! i)). admissible nb' (items nb') i t)
        \<and> (type (items nb' ! i) \<noteq> FILLER \<longrightarrow>
             stim (items nb' ! i) = stim (items nb' ! (i - nat (type (items nb' ! i)))))"
      using 1 2 3 by (simp add: nth' [OF iL(2)] nth' [OF sub] adm [OF iL(3)])
  qed
  have pend: "pending_ok nb' (types_available cur)"
    unfolding pending_ok_def
  proof
    fix t assume "t \<in> set (types_available cur)"
    then have "t \<in> set (types_available ?x)" using set_remove1_subset [of "type ?x" "types_available ?x"] by (auto simp: ta)
    with io L last have "admissible nb ?its (?L - 1) t" by (simp add: items_ok_def)
    then show "admissible nb' (items nb') (length (items nb')) t"
      by (simp add: len' adm)
  qed
  have wo': "words_ok nb'"
  proof (cases "type ?x = FILLER")
    case False
    with wo show ?thesis
      by (auto simp: words_ok_def wl' len' nth')
  next
    case True
    from wo L last True have notin: "stim ?x \<notin> set (wordlist nb)"
      by (simp add: words_ok_def)
    have diff: "stim (?its ! i) \<noteq> stim ?x" if "i < ?L - 1" "type (?its ! i) = FILLER" for i
      using wo that True last L by (auto simp: words_ok_def)
    from wo True notin diff show ?thesis
      by (auto simp: words_ok_def wl' len' nth')
  qed
  have co': "counts_ok nb'"
  proof -
    from co have nn: "\<forall>p \<in> set (types_ints nb). 0 \<le> snd p"
      and le: "int ?L + sum_list (map snd (types_ints nb)) \<le> seqlength nb"
      by (simp_all add: counts_ok_def)
    from c have "(type ?x, c) \<in> set (types_ints nb)" by (rule map_of_SomeD)
    with nn have c0: "0 \<le> c" by auto
    have "\<forall>p \<in> set (types_ints nb'). 0 \<le> snd p"
      using nn c0 set_dict_set [of "types_ints nb" "type ?x" "c + 1"] by (auto simp: ti')
    moreover have "int (length (items nb')) + sum_list (map snd (types_ints nb')) \<le> seqlength nb'"
    proof -
      from ne have "int (?L - 1) = int ?L - 1" by (cases "items nb") simp_all
      with le show ?thesis by (simp add: len' ti' sum_dict_set [OF c] sq)
    qed
    ultimately show ?thesis by (simp add: counts_ok_def)
  qed
  from par' io' wo' co' pend same show ?thesis by (simp add: search_inv_def)
qed

declare backtrack_loop.simps [simp del]

lemma backtrack_loop_inv:
  assumes "search_inv nb" and "pending_ok nb av" and "backtrack_loop nb av = Inr (nb1, av1)"
  shows "search_inv nb1 \<and> pending_ok nb1 av1 \<and> av1 \<noteq> [] \<and> same_spec nb nb1"
  using assms
proof (induction nb av rule: backtrack_loop.induct)
  case (1 nb av)
  show ?case
  proof (cases "av = []")
    case False
    with "1.prems" show ?thesis by (simp add: backtrack_loop.simps [of nb av])
  next
    case True
    with "1.prems"(3) obtain nb' cur where bt: "backtrack nb = Inr (nb', cur)"
      and rest: "backtrack_loop nb' (types_available cur) = Inr (nb1, av1)"
      by (auto simp: backtrack_loop.simps [of nb "[]"] split: sum.splits)
    from backtrack_inv [OF "1.prems"(1) bt] have inv': "search_inv nb'"
      and pend': "pending_ok nb' (types_available cur)" and same: "same_spec nb nb'"
      by simp_all
    from "1.IH" [OF True bt refl inv' pend' rest] same show ?thesis
      by (auto intro: same_spec_trans)
  qed
qed

lemma expand_Inr:
  "expand d av = Inr ex \<Longrightarrow> t \<in> set ex \<Longrightarrow> t \<in> set av \<and> (\<exists>c. map_of d t = Some c \<and> 0 < c)"
proof (induction av arbitrary: ex)
  case Nil
  then show ?case by simp
next
  case (Cons a av)
  from Cons.prems(1) obtain c rest where c: "map_of d a = Some c"
    and rest: "expand d av = Inr rest" and ex: "ex = replicate (nat c) a @ rest"
    by (auto simp: bind_result_eq_Inr dict_get_Inr)
  show ?case
  proof (cases "t \<in> set rest")
    case True
    with Cons.IH [OF rest] show ?thesis by simp
  next
    case False
    with Cons.prems(2) ex have "t = a" "0 < c" by (auto split: if_splits)
    with c show ?thesis by simp
  qed
qed

lemma choose_random_itemtype_Inr:
  assumes "choose_random_itemtype r nb av = Inr ty"
  shows "ty \<in> set av \<and> (\<exists>c. map_of (types_ints nb) ty = Some c \<and> 0 < c)"
proof -
  from assms obtain ex where ex: "expand (types_ints nb) av = Inr ex" and ne: "ex \<noteq> []"
    and ty: "ty = ex ! (r mod length ex)"
    by (auto simp: choose_random_itemtype_def bind_result_eq_Inr split: if_splits)
  from ne ty have "ty \<in> set ex" by simp
  with expand_Inr [OF ex] show ?thesis by blast
qed

text \<open>What a successful \<open>add_item\<close> does, in terms of the object after backtracking.\<close>

lemma add_item_Inr:
  assumes "add_item r nb = Inr nb'"
  obtains av0 nb1 av ty c s where
    "get_types nb = Inr av0" and "backtrack_loop nb av0 = Inr (nb1, av)"
    and "ty \<in> set av" and "map_of (types_ints nb1) ty = Some c" and "0 < c"
    and "items nb' = items nb1 @ [\<lparr>types_available = av, type = ty, stim = s\<rparr>]"
    and "types_ints nb' = dict_set (types_ints nb1) ty (c - 1)"
    and "ty = FILLER \<longrightarrow> wordlist nb1 \<noteq> [] \<and> wordlist nb' = butlast (wordlist nb1)
                         \<and> s = last (wordlist nb1)"
    and "ty \<noteq> FILLER \<longrightarrow> wordlist nb' = wordlist nb1
                         \<and> (\<exists>it. py_index (items nb1) (- ty) = Inr it \<and> s = stim it)"
    and "same_spec nb1 nb'"
proof -
  from assms obtain av0 nb1 av ty c nb2 s where
    1: "get_types nb = Inr av0" and 2: "backtrack_loop nb av0 = Inr (nb1, av)"
    and 3: "choose_random_itemtype r nb1 av = Inr ty"
    and 4: "dict_get (types_ints nb1) ty = Inr c"
    and 5: "get_stim (nb1\<lparr>types_ints := dict_set (types_ints nb1) ty (c - 1)\<rparr>) ty = Inr (nb2, s)"
    and 6: "nb' = nb2\<lparr>items := items nb2 @ [\<lparr>types_available = av, type = ty, stim = s\<rparr>]\<rparr>"
    by (auto simp: add_item_def bind_result_eq_Inr)
  from choose_random_itemtype_Inr [OF 3] 4 have ty: "ty \<in> set av"
    and c: "map_of (types_ints nb1) ty = Some c" "0 < c"
    by (auto simp: dict_get_Inr)
  show thesis
  proof (rule that [OF 1 2 ty c])
    show "items nb' = items nb1 @ [\<lparr>types_available = av, type = ty, stim = s\<rparr>]"
      using 5 6 by (auto simp: get_stim_def bind_result_eq_Inr split: if_splits)
    show "types_ints nb' = dict_set (types_ints nb1) ty (c - 1)"
      using 5 6 by (auto simp: get_stim_def bind_result_eq_Inr split: if_splits)
    show "ty = FILLER \<longrightarrow> wordlist nb1 \<noteq> [] \<and> wordlist nb' = butlast (wordlist nb1)
                         \<and> s = last (wordlist nb1)"
      using 5 6 by (auto simp: get_stim_def bind_result_eq_Inr split: if_splits)
    show "ty \<noteq> FILLER \<longrightarrow> wordlist nb' = wordlist nb1
                         \<and> (\<exists>it. py_index (items nb1) (- ty) = Inr it \<and> s = stim it)"
      using 5 6 by (auto simp: get_stim_def bind_result_eq_Inr split: if_splits)
    show "same_spec nb1 nb'"
      using 5 6 by (auto simp: get_stim_def bind_result_eq_Inr same_spec_def split: if_splits)
  qed
qed

lemma add_item_inv:
  assumes inv: "search_inv nb" and add: "add_item r nb = Inr nb'"
  shows "search_inv nb' \<and> same_spec nb nb'"
proof -
  from add obtain av0 nb1 av ty c s where
    gt: "get_types nb = Inr av0" and bl: "backtrack_loop nb av0 = Inr (nb1, av)"
    and ty: "ty \<in> set av" and c: "map_of (types_ints nb1) ty = Some c" and c0: "0 < c"
    and its': "items nb' = items nb1 @ [\<lparr>types_available = av, type = ty, stim = s\<rparr>]"
    and ti': "types_ints nb' = dict_set (types_ints nb1) ty (c - 1)"
    and fil: "ty = FILLER \<longrightarrow> wordlist nb1 \<noteq> [] \<and> wordlist nb' = butlast (wordlist nb1)
                         \<and> s = last (wordlist nb1)"
    and nfil: "ty \<noteq> FILLER \<longrightarrow> wordlist nb' = wordlist nb1
                         \<and> (\<exists>it. py_index (items nb1) (- ty) = Inr it \<and> s = stim it)"
    and same1: "same_spec nb1 nb'"
    by (rule add_item_Inr)
  from inv have "params_ok nb" by (simp add: search_inv_def)
  from get_types_pending [OF this gt] have "pending_ok nb av0" .
  from backtrack_loop_inv [OF inv this bl] have inv1: "search_inv nb1"
    and pend: "pending_ok nb1 av" and same0: "same_spec nb nb1" by simp_all
  let ?its = "items nb1" and ?L = "length (items nb1)"
  let ?new = "\<lparr>types_available = av, type = ty, stim = s\<rparr>"
  from inv1 have par: "params_ok nb1" and io: "items_ok nb1" and wo: "words_ok nb1"
    and co: "counts_ok nb1" by (simp_all add: search_inv_def)
  from par have n1: "1 \<le> nlevel nb1" by (simp add: params_ok_def)
  from same1 have sn: "nlevel nb' = nlevel nb1" and sm: "max_repeat nb' = max_repeat nb1"
    and sl: "lures nb' = lures nb1" and sq: "seqlength nb' = seqlength nb1"
    by (simp_all add: same_spec_def)
  have len': "length (items nb') = Suc ?L" by (simp add: its')
  have nth': "items nb' ! j = ?its ! j" if "j < ?L" for j
    using that by (simp add: its' nth_append)
  have nthL: "items nb' ! ?L = ?new" by (simp add: its')
  have adm: "admissible nb' (items nb') i t = admissible nb1 ?its i t" if "i \<le> ?L" for i t
    by (rule admissible_cong [OF sn sm n1]) (use that nth' in auto)
  from pend ty have admty: "admissible nb1 ?its ?L ty" by (simp add: pending_ok_def)
  have par': "params_ok nb'" using par by (simp add: params_ok_def sn sl)
  have stim_new: "s = stim (?its ! (?L - nat ty))" and ty_pos: "1 \<le> ty \<and> ty \<le> int ?L"
    if "ty \<noteq> FILLER"
  proof -
    from admty that show ty1: "1 \<le> ty \<and> ty \<le> int ?L" by (simp add: admissible_def)
    from nfil that obtain it where "py_index ?its (- ty) = Inr it" "s = stim it" by blast
    with py_index_back_Inr [of ?its ty it] ty1 show "s = stim (?its ! (?L - nat ty))" by simp
  qed
  have io': "items_ok nb'"
    unfolding items_ok_def
  proof (intro allI impI)
    fix i assume "i < length (items nb')"
    then consider "i < ?L" | "i = ?L" by (auto simp: len' less_Suc_eq)
    then show "type (items nb' ! i) \<in> set (types_available (items nb' ! i))
        \<and> (\<forall>t \<in> set (types_available (items nb' ! i)). admissible nb' (items nb') i t)
        \<and> (type (items nb' ! i) \<noteq> FILLER \<longrightarrow>
             stim (items nb' ! i) = stim (items nb' ! (i - nat (type (items nb' ! i)))))"
    proof cases
      case 1
      then have sub: "i - nat (type (?its ! i)) < ?L" and le: "i \<le> ?L" by simp_all
      from io 1 show ?thesis
        by (simp add: items_ok_def nth' [OF 1] nth' [OF sub] adm [OF le])
    next
      case 2
      have "stim ?new = stim (items nb' ! (?L - nat ty))" if "ty \<noteq> FILLER"
      proof -
        from ty_pos [OF that] have "?L - nat ty < ?L" by auto
        with stim_new [OF that] show ?thesis by (simp add: nth')
      qed
      with ty pend show ?thesis
        by (simp add: 2 nthL adm pending_ok_def)
    qed
  qed
  have wo': "words_ok nb'"
  proof (cases "ty = FILLER")
    case False
    with nfil have wl: "wordlist nb' = wordlist nb1" by simp
    from wo False show ?thesis
      unfolding words_ok_def len' wl
      by (auto simp: less_Suc_eq nth' nthL)
  next
    case True
    with fil have ne: "wordlist nb1 \<noteq> []" and wl: "wordlist nb' = butlast (wordlist nb1)"
      and s: "s = last (wordlist nb1)" by simp_all
    from wo have d: "distinct (wordlist nb1)" by (simp add: words_ok_def)
    from ne have split: "wordlist nb1 = butlast (wordlist nb1) @ [s]" by (simp add: s)
    with d have s_notin: "s \<notin> set (butlast (wordlist nb1))"
      by (metis distinct_append distinct.simps(2) disjoint_iff list.set_intros(1) not_distinct_conv_prefix)
    from ne s have s_in: "s \<in> set (wordlist nb1)" by simp
    have sub: "set (butlast (wordlist nb1)) \<subseteq> set (wordlist nb1)"
      by (auto dest: in_set_butlastD)
    from wo s_in have old: "stim (?its ! i) \<noteq> s" if "i < ?L" "type (?its ! i) = FILLER" for i
      using that by (auto simp: words_ok_def)
    from wo d s_notin sub old show ?thesis
      unfolding words_ok_def len' wl
      by (auto simp: less_Suc_eq nth' nthL distinct_butlast)
  qed
  have co': "counts_ok nb'"
  proof -
    from co have nn: "\<forall>p \<in> set (types_ints nb1). 0 \<le> snd p"
      and le: "int ?L + sum_list (map snd (types_ints nb1)) \<le> seqlength nb1"
      by (simp_all add: counts_ok_def)
    have "\<forall>p \<in> set (types_ints nb'). 0 \<le> snd p"
      using nn c0 set_dict_set [of "types_ints nb1" ty "c - 1"] by (auto simp: ti')
    moreover have "int (length (items nb')) + sum_list (map snd (types_ints nb')) \<le> seqlength nb'"
      using le by (simp add: len' ti' sum_dict_set [OF c] sq)
    ultimately show ?thesis by (simp add: counts_ok_def)
  qed
  from par' io' wo' co' same_spec_trans [OF same0 same1] show ?thesis
    by (simp add: search_inv_def)
qed

lemma set_items_inv:
  assumes "search_inv nb" and "set_items rnd fuel k nb = Some (Inr nb')"
  shows "search_inv nb' \<and> same_spec nb nb' \<and> seqlength nb' \<le> int (length (items nb'))"
  using assms
proof (induction fuel arbitrary: k nb)
  case 0
  then show ?case by (simp split: if_splits)
next
  case (Suc fuel)
  show ?case
  proof (cases "int (length (items nb)) < seqlength nb")
    case False
    with Suc.prems show ?thesis by simp
  next
    case True
    with Suc.prems(2) obtain nb1 where add: "add_item (rnd k) nb = Inr nb1"
      and rest: "set_items rnd fuel (Suc k) nb1 = Some (Inr nb')"
      by (auto split: sum.splits)
    from add_item_inv [OF Suc.prems(1) add] have "search_inv nb1" "same_spec nb nb1"
      by simp_all
    with Suc.IH [OF _ rest] show ?thesis by (auto intro: same_spec_trans)
  qed
qed

lemma sum_dict_set_le:
  assumes "\<forall>p \<in> set d. 0 \<le> snd p"
  shows "sum_list (map snd (dict_set d k v)) \<le> sum_list (map snd d) + v"
  using assms unfolding dict_set_def by (induction d) (auto split: if_splits)

lemma fold_dict_set_counts:
  assumes "\<forall>p \<in> set ps. 0 \<le> snd p" and "\<forall>p \<in> set d. 0 \<le> snd p"
  shows "(\<forall>p \<in> set (fold (\<lambda>p d. dict_set d (fst p) (snd p)) ps d). 0 \<le> snd p)
       \<and> sum_list (map snd (fold (\<lambda>p d. dict_set d (fst p) (snd p)) ps d))
           \<le> sum_list (map snd d) + sum_list (map snd ps)"
  using assms
proof (induction ps arbitrary: d)
  case Nil
  then show ?case by simp
next
  case (Cons q ps)
  let ?d = "dict_set d (fst q) (snd q)"
  from Cons.prems have q: "0 \<le> snd q" by simp
  have nn: "\<forall>p \<in> set ?d. 0 \<le> snd p"
    using Cons.prems(2) q set_dict_set [of d "fst q" "snd q"] by auto
  from Cons.prems(1) have "\<forall>p \<in> set ps. 0 \<le> snd p" by simp
  from Cons.IH [OF this nn] sum_dict_set_le [OF Cons.prems(2), of "fst q" "snd q"]
  show ?case by simp
qed

lemma old_init_Inr:
  assumes "old_init nl tg fl lu mr = Inr nb"
  shows "1 \<le> nl \<and> 0 \<le> tg \<and> 0 \<le> fl \<and> (\<forall>p \<in> set lu. 0 \<le> snd p \<and> 0 \<le> fst p)
       \<and> nb = \<lparr> nlevel = nl, max_repeat = mr, items = [], targets = tg, fillers = fl,
                 lures = lu, types_ints = dict_of (lu @ [(FILLER, fl), (nl, tg)]),
                 seqlength = fl + tg + sum_list (map snd lu),
                 wordlist = rev (map int [0..<nat fl]), backtrack_count = 0 \<rparr>"
  using assms unfolding old_init_def
  by (cases "py_min (map fst lu @ [nl])"; cases "py_max (map (\<lambda>p. fst p + snd p) lu)")
     (auto simp: list_ex_iff not_less split: if_splits)

lemma old_init_inv:
  assumes "old_init nl tg fl lu mr = Inr nb"
  shows "search_inv nb"
proof -
  note i = old_init_Inr [OF assms]
  from i have nb: "nlevel nb = nl" "lures nb = lu" "items nb = []"
    "types_ints nb = dict_of (lu @ [(FILLER, fl), (nl, tg)])"
    "seqlength nb = fl + tg + sum_list (map snd lu)"
    "wordlist nb = rev (map int [0..<nat fl])"
    by simp_all
  have par: "params_ok nb" using i by (auto simp: params_ok_def nb)
  have io: "items_ok nb" by (simp add: items_ok_def nb)
  have wo: "words_ok nb" by (simp add: words_ok_def nb distinct_map)
  have "\<forall>p \<in> set (lu @ [(FILLER, fl), (nl, tg)]). 0 \<le> snd p" using i by auto
  from fold_dict_set_counts [OF this, of "[]"] have co: "counts_ok nb"
    by (simp add: counts_ok_def nb dict_of_def)
  from par io wo co show ?thesis by (simp add: search_inv_def)
qed



lemma generate_inv:
  assumes "generate rnd fuel nl tg fl lu mr = Some (Inr nb)"
  shows "search_inv nb \<and> nlevel nb = nl \<and> max_repeat nb = mr \<and> lures nb = lu
       \<and> seqlength nb = fl + tg + sum_list (map snd lu)
       \<and> seqlength nb \<le> int (length (items nb))"
proof -
  from assms obtain nb0 where init: "old_init nl tg fl lu mr = Inr nb0"
    and run: "set_items rnd fuel 0 nb0 = Some (Inr nb)"
    by (auto simp: generate_def split: sum.splits)
  from old_init_Inr [OF init] have nb0: "nlevel nb0 = nl" "max_repeat nb0 = mr" "lures nb0 = lu"
    "seqlength nb0 = fl + tg + sum_list (map snd lu)" by simp_all
  from set_items_inv [OF old_init_inv [OF init] run] nb0 show ?thesis
    by (simp add: same_spec_def)
qed

lemma stim_from_filler:
  assumes "items_ok nb" and "i < length (items nb)"
  shows "\<exists>j \<le> i. type (items nb ! j) = FILLER \<and> stim (items nb ! j) = stim (items nb ! i)"
  using assms(2)
proof (induction i rule: less_induct)
  case (less i)
  show ?case
  proof (cases "type (items nb ! i) = FILLER")
    case True
    then show ?thesis by blast
  next
    case False
    let ?t = "type (items nb ! i)"
    from assms(1) less.prems have "?t \<in> set (types_available (items nb ! i))"
      and "\<forall>t \<in> set (types_available (items nb ! i)). admissible nb (items nb) i t"
      and eq: "stim (items nb ! i) = stim (items nb ! (i - nat ?t))"
      using False by (simp_all add: items_ok_def)
    then have "admissible nb (items nb) i ?t" by blast
    with False have "1 \<le> ?t" "?t \<le> int i" by (simp_all add: admissible_def)
    then have lt: "i - nat ?t < i" by auto
    with less.prems have "i - nat ?t < length (items nb)" by simp
    from less.IH [OF lt this] obtain j where "j \<le> i - nat ?t"
      "type (items nb ! j) = FILLER" "stim (items nb ! j) = stim (items nb ! (i - nat ?t))"
      by blast
    with eq lt show ?thesis by (intro exI [of _ j]) simp
  qed
qed

lemma filler_is_fresh:
  assumes "items_ok nb" and "words_ok nb" and "i < length (items nb)"
    and "type (items nb ! i) = FILLER" and "k < i"
  shows "stim (items nb ! k) \<noteq> stim (items nb ! i)"
proof -
  from assms(3,5) have "k < length (items nb)" by simp
  from stim_from_filler [OF assms(1) this] obtain j where j: "j \<le> k"
    "type (items nb ! j) = FILLER" "stim (items nb ! j) = stim (items nb ! k)" by blast
  from j(1) assms(3,5) have "j < length (items nb)" "j \<noteq> i" by simp_all
  with assms(2,3,4) j(2) have "stim (items nb ! j) \<noteq> stim (items nb ! i)"
    by (simp add: words_ok_def)
  with j(3) show ?thesis by simp
qed

lemma item_admissible:
  assumes "items_ok nb" and "i < length (items nb)"
  shows "admissible nb (items nb) i (type (items nb ! i))"
  using assms by (simp add: items_ok_def)

lemma neighbours_differ:
  assumes io: "items_ok nb" and wo: "words_ok nb" and p: "p < length (items nb)"
    and p1: "1 \<le> p" and mr: "max_repeat nb = 1 \<or> (0 < max_repeat nb \<and> max_repeat nb \<le> int p)"
  shows "stim (items nb ! (p - 1)) \<noteq> stim (items nb ! p)"
proof (cases "type (items nb ! p) = FILLER")
  case True
  from p1 have "p - 1 < p" by simp
  from filler_is_fresh [OF io wo p True this] show ?thesis .
next
  case False
  let ?t = "type (items nb ! p)"
  from item_admissible [OF io p] False have
    a: "max_repeat nb = 1 \<longrightarrow> stim (items nb ! (p - 1)) \<noteq> stim (items nb ! (p - nat ?t))"
    and b: "max_repeat nb \<noteq> 0 \<and> max_repeat nb \<noteq> 1 \<longrightarrow> int p < max_repeat nb"
    by (simp_all add: admissible_def)
  from io p False have eq: "stim (items nb ! p) = stim (items nb ! (p - nat ?t))"
    by (simp add: items_ok_def)
  from mr a b eq show ?thesis by auto
qed

section \<open>old.py: the failures of the search\<close>























section \<open>old.py: the search ends\<close>











lemma set_items_more_fuel:
  "set_items rnd fuel k nb = Some r \<Longrightarrow> set_items rnd (fuel + m) k nb = Some r"
proof (induction fuel arbitrary: k nb)
  case 0
  then show ?case by (cases m) (auto split: if_splits)
next
  case (Suc fuel)
  then show ?case by (auto split: if_splits sum.splits)
qed


lemma generate_more_fuel:
  "generate rnd fuel nl tg fl lu mr = Some r \<Longrightarrow> generate rnd (fuel + m) nl tg fl lu mr = Some r"
  by (auto simp: generate_def set_items_more_fuel split: sum.splits)

section \<open>old.py: the counts and the length\<close>

text \<open>
  When no lure key collides with the filler type or the n-level under a positive count,
  the counts left and the items placed add up to \<open>seqlength\<close>, from the constructor on
  and through every \<open>backtrack\<close> and \<open>add_item\<close>.
\<close>

lemma update_fresh_key: "k \<notin> fst ` set al \<Longrightarrow> AList.update k v al = al @ [(k, v)]"
  by (induction al) auto

lemma fold_dict_set_distinct:
  "distinct (map fst (acc @ ps)) \<Longrightarrow> fold (\<lambda>p d. dict_set d (fst p) (snd p)) ps acc = acc @ ps"
proof (induction ps arbitrary: acc)
  case Nil
  then show ?case by simp
next
  case (Cons p ps)
  from Cons.prems have "fst p \<notin> fst ` set acc" by auto
  then have "dict_set acc (fst p) (snd p) = acc @ [p]"
    by (simp add: dict_set_def update_fresh_key)
  moreover from Cons.prems have "distinct (map fst ((acc @ [p]) @ ps))" by simp
  ultimately show ?case using Cons.IH [of "acc @ [p]"] by simp
qed

lemma dict_of_distinct: "distinct (map fst ps) \<Longrightarrow> dict_of ps = ps"
  using fold_dict_set_distinct [of "[]" ps] by (simp add: dict_of_def)

lemma sum_dict_set_None:
  "map_of d k = None \<Longrightarrow> sum_list (map snd (dict_set d k v)) = sum_list (map snd d) + v"
  unfolding dict_set_def by (induction d) (auto split: if_splits)

lemma sum_dict_set_zero:
  assumes "\<forall>c. (k, c) \<in> set d \<longrightarrow> c = 0"
  shows "sum_list (map snd (dict_set d k v)) = sum_list (map snd d) + v"
proof (cases "map_of d k")
  case None
  then show ?thesis by (rule sum_dict_set_None)
next
  case (Some c)
  from map_of_SomeD [OF Some] assms have "c = 0" by simp
  with sum_dict_set [OF Some, of v] show ?thesis by simp
qed

lemma old_init_counts_eq:
  assumes init: "old_init nl tg fl lu mr = Inr nb" and dist: "distinct (map fst lu)"
    and nf: "\<forall>c. (FILLER, c) \<in> set lu \<longrightarrow> c = 0" and nt: "\<forall>c. (nl, c) \<in> set lu \<longrightarrow> c = 0"
  shows "int (length (items nb)) + sum_list (map snd (types_ints nb)) = seqlength nb"
proof -
  note i = old_init_Inr [OF init]
  from i have nlF: "nl \<noteq> FILLER" by (simp add: FILLER_def)
  let ?d1 = "dict_set lu FILLER fl"
  have d: "dict_of (lu @ [(FILLER, fl), (nl, tg)]) = dict_set ?d1 nl tg"
    by (simp add: dict_of_def dict_of_distinct [OF dist, unfolded dict_of_def])
  have s1: "sum_list (map snd ?d1) = sum_list (map snd lu) + fl"
    by (rule sum_dict_set_zero [OF nf])
  have "\<forall>c. (nl, c) \<in> set ?d1 \<longrightarrow> c = 0"
    using set_dict_set [of lu FILLER fl] nt nlF by auto
  from sum_dict_set_zero [OF this] s1
  have "sum_list (map snd (dict_set ?d1 nl tg)) = sum_list (map snd lu) + fl + tg" by simp
  with i d show ?thesis by simp
qed

lemma backtrack_counts_eq:
  assumes "int (length (items nb)) + sum_list (map snd (types_ints nb)) = seqlength nb"
    and "backtrack nb = Inr (nb', cur)"
  shows "int (length (items nb')) + sum_list (map snd (types_ints nb')) = seqlength nb'"
proof -
  from backtrack_Inr [OF assms(2)] obtain c where ne: "items nb \<noteq> []"
    and its': "items nb' = butlast (items nb)"
    and c: "map_of (types_ints nb) (type (last (items nb))) = Some c"
    and ti': "types_ints nb' = dict_set (types_ints nb) (type (last (items nb))) (c + 1)"
    and same: "same_spec nb nb'" by blast
  from ne have "int (length (butlast (items nb))) = int (length (items nb)) - 1"
    by (cases "items nb") simp_all
  with assms(1) same show ?thesis
    by (simp add: its' ti' sum_dict_set [OF c] same_spec_def)
qed

lemma backtrack_loop_counts_eq:
  assumes "int (length (items nb)) + sum_list (map snd (types_ints nb)) = seqlength nb"
    and "backtrack_loop nb av = Inr (nb1, av1)"
  shows "int (length (items nb1)) + sum_list (map snd (types_ints nb1)) = seqlength nb1"
  using assms
proof (induction nb av rule: backtrack_loop.induct)
  case (1 nb av)
  show ?case
  proof (cases "av = []")
    case False
    with "1.prems" show ?thesis by (simp add: backtrack_loop.simps [of nb av])
  next
    case True
    with "1.prems"(2) obtain nb' cur where bt: "backtrack nb = Inr (nb', cur)"
      and rest: "backtrack_loop nb' (types_available cur) = Inr (nb1, av1)"
      by (auto simp: backtrack_loop.simps [of nb "[]"] split: sum.splits)
    from "1.IH" [OF True bt refl backtrack_counts_eq [OF "1.prems"(1) bt] rest]
    show ?thesis .
  qed
qed

lemma add_item_counts_eq:
  assumes "int (length (items nb)) + sum_list (map snd (types_ints nb)) = seqlength nb"
    and "add_item r nb = Inr nb'"
  shows "int (length (items nb')) + sum_list (map snd (types_ints nb')) = seqlength nb'"
proof -
  from assms(2) obtain av0 nb1 av ty c s where
    bl: "backtrack_loop nb av0 = Inr (nb1, av)"
    and c: "map_of (types_ints nb1) ty = Some c"
    and its': "items nb' = items nb1 @ [\<lparr>types_available = av, type = ty, stim = s\<rparr>]"
    and ti': "types_ints nb' = dict_set (types_ints nb1) ty (c - 1)"
    and same: "same_spec nb1 nb'"
    by (rule add_item_Inr)
  from backtrack_loop_counts_eq [OF assms(1) bl] same show ?thesis
    by (simp add: its' ti' sum_dict_set [OF c] same_spec_def)
qed

section \<open>old.py: the returned sequence\<close>




text \<open>
  Claim C2. In a returned sequence, an item whose type \<open>d\<close> is neither the filler type
  nor the n-level is a \<open>d\<close>-back lure: it has \<open>d\<close> predecessors, its stimulus is the one
  \<open>d\<close> positions back, and it is not the one n positions back when that position exists.
\<close>

theorem lure_copies_and_differs_from_n_back:
  assumes "generate rnd fuel nl tg fl lu mr = Some (Inr nb)"
    and "i < length (items nb)" and "type (items nb ! i) = d"
    and "d \<noteq> FILLER" and "d \<noteq> nl"
  shows "1 \<le> d \<and> d \<le> int i
       \<and> stim (items nb ! i) = stim (items nb ! (i - nat d))
       \<and> (nl \<le> int i \<longrightarrow> stim (items nb ! i) \<noteq> stim (items nb ! (i - nat nl)))"
proof -
  from generate_inv [OF assms(1)] have io: "items_ok nb" and n: "nlevel nb = nl"
    by (simp_all add: search_inv_def)
  from item_admissible [OF io assms(2)] assms(3,4,5) n
  have "1 \<le> d" "d \<le> int i"
    "nl \<le> int i \<longrightarrow> stim (items nb ! (i - nat d)) \<noteq> stim (items nb ! (i - nat nl))"
    by (auto simp: admissible_def)
  moreover from io assms(2,3,4) have "stim (items nb ! i) = stim (items nb ! (i - nat d))"
    by (simp add: items_ok_def)
  ultimately show ?thesis by simp
qed

theorem lure_copies_and_differs_from_n_back_witness:
  "\<exists>nb. generate rnd_mixed 6 3 1 3 [(1, 1), (2, 1)] 0 = Some (Inr nb)
     \<and> map type (items nb) = [0, 0, 2, 0, 1, 3] \<and> map stim (items nb) = [0, 1, 0, 2, 2, 0]
     \<and> 4 < length (items nb) \<and> type (items nb ! 4) = 1 \<and> (1::int) \<noteq> FILLER \<and> (1::int) \<noteq> 3
     \<and> stim (items nb ! 4) = stim (items nb ! (4 - nat 1))
     \<and> stim (items nb ! 4) \<noteq> stim (items nb ! (4 - nat 3))"
proof -
  have run: "generate rnd_mixed 6 3 1 3 [(1, 1), (2, 1)] 0 =
     Some (Inr \<lparr> nlevel = 3, max_repeat = 0,
       items = [\<lparr>types_available = [0], type = 0, stim = 0\<rparr>,
                \<lparr>types_available = [0, 1], type = 0, stim = 1\<rparr>,
                \<lparr>types_available = [0, 1, 2], type = 2, stim = 0\<rparr>,
                \<lparr>types_available = [0, 3], type = 0, stim = 2\<rparr>,
                \<lparr>types_available = [3, 1], type = 1, stim = 2\<rparr>,
                \<lparr>types_available = [3], type = 3, stim = 0\<rparr>],
       targets = 1, fillers = 3, lures = [(1, 1), (2, 1)],
       types_ints = [(1, 0), (2, 0), (0, 0), (3, 0)], seqlength = 6, wordlist = [],
       backtrack_count = 0 \<rparr>)"
    by code_simp
  from lure_copies_and_differs_from_n_back [OF run, of 4 1] run show ?thesis
    by (simp add: FILLER_def)
qed

text \<open>
  With \<open>max_repeat == 0\<close> nothing limits a run: the 1-back request with three targets
  returns one stimulus four times. With \<open>max_repeat == 1\<close> the targets of a 2-back
  request alternate.
\<close>

lemma max_repeat_0_unlimited:
  "generate rnd_zero 4 1 3 1 [(1, 0)] 0 =
     Some (Inr \<lparr> nlevel = 1, max_repeat = 0,
       items = [\<lparr>types_available = [0], type = 0, stim = 0\<rparr>,
                \<lparr>types_available = [1], type = 1, stim = 0\<rparr>,
                \<lparr>types_available = [1], type = 1, stim = 0\<rparr>,
                \<lparr>types_available = [1], type = 1, stim = 0\<rparr>],
       targets = 3, fillers = 1, lures = [(1, 0)],
       types_ints = [(1, 0), (0, 0)], seqlength = 4, wordlist = [],
       backtrack_count = 0 \<rparr>)"
  by code_simp

lemma max_repeat_1_alternates:
  "generate rnd_zero 5 2 2 3 [(1, 0)] 1 =
     Some (Inr \<lparr> nlevel = 2, max_repeat = 1,
       items = [\<lparr>types_available = [0], type = 0, stim = 0\<rparr>,
                \<lparr>types_available = [0], type = 0, stim = 1\<rparr>,
                \<lparr>types_available = [0, 2], type = 0, stim = 2\<rparr>,
                \<lparr>types_available = [2], type = 2, stim = 1\<rparr>,
                \<lparr>types_available = [2], type = 2, stim = 2\<rparr>],
       targets = 2, fillers = 3, lures = [(1, 0)],
       types_ints = [(1, 0), (0, 0), (2, 0)], seqlength = 5, wordlist = [],
       backtrack_count = 0 \<rparr>)"
  by code_simp

text \<open>
  What holds of the sequences that are returned: no window of \<open>max_repeat + 1\<close>
  positions carries one stimulus. For \<open>max_repeat == 1\<close> the check of \<open>get_types\<close>
  sees to it. For any larger \<open>max_repeat\<close> it holds for another reason: a sequence is
  returned only if no target or lure was ever considered from position \<open>max_repeat\<close> on,
  so every item there is a filler.
\<close>

lemma no_run_longer_than_max_repeat:
  assumes "generate rnd fuel nl tg fl lu mr = Some (Inr nb)"
    and "0 < mr" and "a + nat mr < length (items nb)"
  shows "\<not> (\<forall>j \<le> nat mr. stim (items nb ! (a + j)) = stim (items nb ! a))"
proof
  assume same: "\<forall>j \<le> nat mr. stim (items nb ! (a + j)) = stim (items nb ! a)"
  from generate_inv [OF assms(1)] have io: "items_ok nb" and wo: "words_ok nb"
    and m: "max_repeat nb = mr" by (simp_all add: search_inv_def)
  let ?p = "a + nat mr"
  from assms(2) have p1: "1 \<le> ?p" and le: "mr \<le> int ?p" by simp_all
  from neighbours_differ [OF io wo assms(3) p1] assms(2) le m
  have "stim (items nb ! (?p - 1)) \<noteq> stim (items nb ! ?p)" by simp
  moreover from assms(2) have "?p - 1 = a + (nat mr - 1)" by simp
  moreover from same have "stim (items nb ! (a + (nat mr - 1))) = stim (items nb ! a)"
    "stim (items nb ! (a + nat mr)) = stim (items nb ! a)" by simp_all
  ultimately show False by simp
qed

lemma only_fillers_from_max_repeat_on:
  assumes "generate rnd fuel nl tg fl lu mr = Some (Inr nb)"
    and "2 \<le> mr" and "i < length (items nb)" and "mr \<le> int i"
  shows "type (items nb ! i) = FILLER"
proof -
  from generate_inv [OF assms(1)] have io: "items_ok nb" and m: "max_repeat nb = mr"
    by (simp_all add: search_inv_def)
  from item_admissible [OF io assms(3)] assms(2,4) m show ?thesis
    by (auto simp: admissible_def)
qed

text \<open>
  Claim C3. For every accepted \<open>max_repeat > 0\<close>, values of 2 and more included, the
  generated sequence should have no \<open>max_repeat + 1\<close> consecutive positions with one
  stimulus. For \<open>max_repeat >= 2\<close> the check itself fails: \<open>repeat_limit_reached\<close>
  calls \<open>self.items_different(range(-self.max_repeat, 0))\<close>, one argument for a method
  of two, and raises \<open>TypeError\<close> as soon as \<open>max_repeat\<close> items are placed and a target
  or lure is considered. The request \<open>Nback(2, 1, 3, {1: 0}, 2)\<close> is accepted and has the
  sequence filler, filler, target, filler, which repeats no stimulus in a row; only the
  filler is available at the positions 0 and 1, so every run reaches the target check with
  two items placed, and raises.
\<close>

theorem repeat_limit_check_raises_for_max_repeat_2:
  "old_init 2 1 3 [(1, 0)] 2 =
     Inr \<lparr> nlevel = 2, max_repeat = 2, items = [], targets = 1, fillers = 3,
           lures = [(1, 0)], types_ints = [(1, 0), (0, 3), (2, 1)], seqlength = 4,
           wordlist = [2, 1, 0], backtrack_count = 0 \<rparr>
   \<and> repeat_limit_reached
       \<lparr> nlevel = 2, max_repeat = 2,
         items = [\<lparr>types_available = [0], type = 0, stim = 0\<rparr>,
                  \<lparr>types_available = [0], type = 0, stim = 1\<rparr>],
         targets = 1, fillers = 3, lures = [(1, 0)],
         types_ints = [(1, 0), (0, 1), (2, 1)], seqlength = 4,
         wordlist = [2], backtrack_count = 0 \<rparr> = Inl TypeError
   \<and> generate rnd_zero 3 2 1 3 [(1, 0)] 2 = Some (Inl TypeError)
   \<and> generate rnd_mixed 3 2 1 3 [(1, 0)] 2 = Some (Inl TypeError)
   \<and> generate rnd_count 3 2 1 3 [(1, 0)] 2 = Some (Inl TypeError)"
  by code_simp

text \<open>
  Claim C7. In a returned sequence, an item whose type is the n-level (a target) has n
  predecessors and carries the stimulus n positions back.
\<close>

theorem target_copies_n_back:
  assumes "generate rnd fuel nl tg fl lu mr = Some (Inr nb)"
    and "i < length (items nb)" and "type (items nb ! i) = nl"
  shows "nl \<le> int i \<and> stim (items nb ! i) = stim (items nb ! (i - nat nl))"
proof -
  from generate_inv [OF assms(1)] have io: "items_ok nb" and n: "nlevel nb = nl"
    and par: "params_ok nb" by (simp_all add: search_inv_def)
  from par n have nf: "nl \<noteq> FILLER" by (simp add: params_ok_def FILLER_def)
  from item_admissible [OF io assms(2)] assms(3) nf have "nl \<le> int i"
    by (simp add: admissible_def)
  moreover from io assms(2,3) nf have "stim (items nb ! i) = stim (items nb ! (i - nat nl))"
    by (simp add: items_ok_def)
  ultimately show ?thesis by simp
qed

theorem target_copies_n_back_witness:
  "\<exists>nb. generate rnd_mixed 4 2 2 2 [(1, 0)] 0 = Some (Inr nb)
     \<and> map type (items nb) = [0, 0, 2, 2] \<and> map stim (items nb) = [0, 1, 0, 1]
     \<and> 3 < length (items nb) \<and> type (items nb ! 3) = 2
     \<and> (2::int) \<le> int 3 \<and> stim (items nb ! 3) = stim (items nb ! (3 - nat 2))"
proof -
  have run: "generate rnd_mixed 4 2 2 2 [(1, 0)] 0 =
     Some (Inr \<lparr> nlevel = 2, max_repeat = 0,
       items = [\<lparr>types_available = [0], type = 0, stim = 0\<rparr>,
                \<lparr>types_available = [0], type = 0, stim = 1\<rparr>,
                \<lparr>types_available = [2], type = 2, stim = 0\<rparr>,
                \<lparr>types_available = [2], type = 2, stim = 1\<rparr>],
       targets = 2, fillers = 2, lures = [(1, 0)],
       types_ints = [(1, 0), (0, 0), (2, 0)], seqlength = 4, wordlist = [],
       backtrack_count = 0 \<rparr>)"
    by code_simp
  from target_copies_n_back [OF run, of 3] run show ?thesis by simp
qed

text \<open>
  Claim C8. In a returned sequence the stimuli of the fillers are pairwise distinct,
  however often the search backtracked on the way; the words still in the pool are
  distinct too, and none of them is the stimulus of a filler in the sequence.
\<close>

theorem filler_stimuli_distinct:
  assumes "generate rnd fuel nl tg fl lu mr = Some (Inr nb)"
  shows "(\<forall>i < length (items nb). \<forall>j < length (items nb).
            i \<noteq> j \<longrightarrow> type (items nb ! i) = FILLER \<longrightarrow> type (items nb ! j) = FILLER \<longrightarrow>
            stim (items nb ! i) \<noteq> stim (items nb ! j))
       \<and> distinct (wordlist nb)
       \<and> (\<forall>i < length (items nb). type (items nb ! i) = FILLER \<longrightarrow>
            stim (items nb ! i) \<notin> set (wordlist nb))"
  using generate_inv [OF assms] by (simp add: search_inv_def words_ok_def)

text \<open>
  The run of the witness backtracks twice: the second filler is popped, its word goes
  back to the pool, and the same word is drawn again two items later.
\<close>

theorem filler_stimuli_distinct_witness:
  "\<exists>nb. generate rnd_zero 6 2 0 2 [(1, 2)] 0 = Some (Inr nb)
     \<and> map type (items nb) = [0, 1, 0, 1] \<and> map stim (items nb) = [0, 0, 1, 1]
     \<and> backtrack_count nb = 2
     \<and> (\<forall>i < length (items nb). \<forall>j < length (items nb).
            i \<noteq> j \<longrightarrow> type (items nb ! i) = FILLER \<longrightarrow> type (items nb ! j) = FILLER \<longrightarrow>
            stim (items nb ! i) \<noteq> stim (items nb ! j))
     \<and> distinct (wordlist nb)
     \<and> (\<forall>i < length (items nb). type (items nb ! i) = FILLER \<longrightarrow>
            stim (items nb ! i) \<notin> set (wordlist nb))"
proof -
  have run: "generate rnd_zero 6 2 0 2 [(1, 2)] 0 =
     Some (Inr \<lparr> nlevel = 2, max_repeat = 0,
       items = [\<lparr>types_available = [0], type = 0, stim = 0\<rparr>,
                \<lparr>types_available = [1], type = 1, stim = 0\<rparr>,
                \<lparr>types_available = [0], type = 0, stim = 1\<rparr>,
                \<lparr>types_available = [1], type = 1, stim = 1\<rparr>],
       targets = 0, fillers = 2, lures = [(1, 2)],
       types_ints = [(1, 0), (0, 0), (2, 0)], seqlength = 4, wordlist = [],
       backtrack_count = 2 \<rparr>)"
    by code_simp
  from filler_stimuli_distinct [OF run] run show ?thesis by simp
qed

section \<open>How a run ends\<close>

text \<open>
  In \<open>nback.py\<close>, \<open>sequence\<close> calls \<open>place\<close> without \<open>available\<close>: the call raises
  \<open>TypeError\<close> whatever is to be placed, and no call of \<open>place\<close> raises
  \<open>UnsatisfiableException\<close>.
\<close>

lemma place_first_call: "place fl prs None it = Inl TypeError"
  by (simp add: place_def)

lemma place_never_unsatisfiable: "place fl prs available it \<noteq> Inl UnsatisfiableException"
  by (simp add: place_def)




text \<open>
  Claim C10. After every \<open>add_item\<close> the counts left in \<open>types_ints\<close> plus the number of
  items placed should be \<open>seqlength\<close>. \<open>types_ints\<close> is built by
  \<open>dict(lures.items() + [(FILLER, fillers), (n, targets)])\<close>, where the filler and target
  entries replace a lure entry under the same key, while \<open>seqlength\<close> adds up all lure
  counts. The request \<open>Nback(1, 0, 1, {0: 1})\<close>, which \<open>old.py\<close> accepts, has
  \<open>seqlength == 2\<close>; after the first \<open>add_item\<close> one item is placed and no count is left,
  and the run ends in \<open>exit()\<close>.
\<close>

theorem counts_fall_short_of_seqlength:
  "old_init 1 0 1 [(0, 1)] 0 =
     Inr \<lparr> nlevel = 1, max_repeat = 0, items = [], targets = 0, fillers = 1,
           lures = [(0, 1)], types_ints = [(0, 1), (1, 0)], seqlength = 2,
           wordlist = [0], backtrack_count = 0 \<rparr>
   \<and> add_item 0 \<lparr> nlevel = 1, max_repeat = 0, items = [], targets = 0, fillers = 1,
           lures = [(0, 1)], types_ints = [(0, 1), (1, 0)], seqlength = 2,
           wordlist = [0], backtrack_count = 0 \<rparr> =
     Inr \<lparr> nlevel = 1, max_repeat = 0,
           items = [\<lparr>types_available = [0, 0], type = 0, stim = 0\<rparr>],
           targets = 0, fillers = 1,
           lures = [(0, 1)], types_ints = [(0, 0), (1, 0)], seqlength = 2,
           wordlist = [], backtrack_count = 0 \<rparr>
   \<and> int (length [\<lparr>types_available = [0, 0], type = 0, stim = (0::int)\<rparr>])
       + sum_list (map snd [(0::int, 0::int), (1, 0)]) \<noteq> 2
   \<and> generate rnd_zero 3 1 0 1 [(0, 1)] 0 = Some (Inl SystemExit)"
  by code_simp

end
